theory Spec2Isabelle
  imports Main
begin

section \<open>Collaborators of jogger.go: context values, zap fields and loggers, slices\<close>

text \<open>
  The package keeps request and span identity in a \<^verbatim>\<open>context.Context\<close> and writes
  through a \<^verbatim>\<open>*zap.Logger\<close>. Both come from libraries; they are modelled here only as
  far as jogger.go uses them.

  A context key is an interface value: two keys are equal when their dynamic types and
  their values agree. \<open>ContextKey s\<close> is a key of the package's own type
  \<^verbatim>\<open>type ContextKey string\<close>; \<open>OtherKey n\<close> stands for a key of any other type
  (a plain string \<^verbatim>\<open>"requestID"\<close>, for instance, is such a key and differs from
  \<^verbatim>\<open>ContextKey("requestID")\<close>).
\<close>

datatype key = ContextKey string | OtherKey nat

text \<open>
  The values a tag can carry (\<^verbatim>\<open>interface{}\<close> in \<^verbatim>\<open>SetTag\<close>) and the fields zap builds
  from them. \<open>zero_Field\<close> is the zero value \<^verbatim>\<open>zap.Field{}\<close> with which \<^verbatim>\<open>make\<close> fills a
  new array; \<open>zap_Skip\<close> is what \<^verbatim>\<open>zap.Error(nil)\<close> returns.
\<close>

datatype tag_value = StringValue string | IntValue int | BoolValue bool | OpaqueValue nat

datatype field =
    zap_String string string
  | zap_Any string tag_value
  | zap_Duration string int
  | zap_NamedError string string
  | zap_Skip
  | zero_Field

datatype go_error = nil_error | an_error string

definition zap_Error :: "go_error \<Rightarrow> field" where
  "zap_Error e = (case e of nil_error \<Rightarrow> zap_Skip | an_error m \<Rightarrow> zap_NamedError ''error'' m)"

datatype level = DebugLevel | InfoLevel | WarnLevel | ErrorLevel | DPanicLevel | PanicLevel | FatalLevel

fun level_rank :: "level \<Rightarrow> int" where
  "level_rank DebugLevel = -1"
| "level_rank InfoLevel = 0"
| "level_rank WarnLevel = 1"
| "level_rank ErrorLevel = 2"
| "level_rank DPanicLevel = 3"
| "level_rank PanicLevel = 4"
| "level_rank FatalLevel = 5"

text \<open>
  A logger is the core it writes to, the least level that core lets through, and the
  fields bound to it so far by \<^verbatim>\<open>With\<close>. Logger handles are taken to be non-nil.
\<close>

record logger =
  core :: nat
  min_level :: level
  with_fields :: "field list"

definition With :: "logger \<Rightarrow> field list \<Rightarrow> logger" where
  "With l fs = l\<lparr>with_fields := with_fields l @ fs\<rparr>"

definition Enabled :: "logger \<Rightarrow> level \<Rightarrow> bool" where
  "Enabled l lv = (level_rank (min_level l) \<le> level_rank lv)"

record entry =
  e_logger :: logger
  e_level :: level
  e_message :: string
  e_fields :: "field list"

text \<open>
  \<^verbatim>\<open>l.Info(msg, fields...)\<close>, \<^verbatim>\<open>l.Warn\<close> and \<^verbatim>\<open>l.Error\<close> write one entry to the sink when the
  logger's core enables the level, and nothing otherwise. The sink is the list of entries
  written so far.
\<close>

definition write_entry :: "logger \<Rightarrow> level \<Rightarrow> string \<Rightarrow> field list \<Rightarrow> entry list \<Rightarrow> entry list" where
  "write_entry l lv msg fs out =
     (if Enabled l lv
      then out @ [\<lparr>e_logger = l, e_level = lv, e_message = msg, e_fields = fs\<rparr>]
      else out)"

definition logger_Info :: "logger \<Rightarrow> string \<Rightarrow> field list \<Rightarrow> entry list \<Rightarrow> entry list" where
  "logger_Info l msg fs out = write_entry l InfoLevel msg fs out"

definition logger_Warn :: "logger \<Rightarrow> string \<Rightarrow> field list \<Rightarrow> entry list \<Rightarrow> entry list" where
  "logger_Warn l msg fs out = write_entry l WarnLevel msg fs out"

definition logger_Error :: "logger \<Rightarrow> string \<Rightarrow> field list \<Rightarrow> entry list \<Rightarrow> entry list" where
  "logger_Error l msg fs out = write_entry l ErrorLevel msg fs out"

text \<open>
  What a context can hold under a key. \<^verbatim>\<open>ctx.Value(k)\<close> returns \<^verbatim>\<open>nil\<close> when nothing is
  bound. A context is the chain of its bindings, the most recent first;
  \<^verbatim>\<open>context.Background()\<close> is the empty chain, and \<^verbatim>\<open>context.WithValue\<close> puts one
  binding in front of its parent without touching the parent.
\<close>

datatype ctx_value = nil_value | string_value string | logger_value logger | other_value nat

type_synonym Context = "(key \<times> ctx_value) list"

definition Background :: Context where
  "Background = []"

definition WithValue :: "Context \<Rightarrow> key \<Rightarrow> ctx_value \<Rightarrow> Context" where
  "WithValue parent k v = (k, v) # parent"

fun Value :: "Context \<Rightarrow> key \<Rightarrow> ctx_value" where
  "Value [] k = nil_value"
| "Value ((k', v) # parent) k = (if k' = k then v else Value parent k)"

text \<open>The parent of a derived context; the background context has none.\<close>

fun parent_of :: "Context \<Rightarrow> Context option" where
  "parent_of [] = None"
| "parent_of (b # parent) = Some parent"


text \<open>
  The comma-ok type assertions \<^verbatim>\<open>v.(string)\<close> and \<^verbatim>\<open>v.(*zap.Logger)\<close>: the value and
  \<^verbatim>\<open>true\<close> when the dynamic type matches, the zero value and \<^verbatim>\<open>false\<close> otherwise.
\<close>

definition as_string :: "ctx_value \<Rightarrow> string \<times> bool" where
  "as_string v = (case v of string_value s \<Rightarrow> (s, True) | _ \<Rightarrow> ('''', False))"

definition as_logger :: "ctx_value \<Rightarrow> logger option" where
  "as_logger v = (case v of logger_value l \<Rightarrow> Some l | _ \<Rightarrow> None)"

text \<open>
  A slice is a header (array, length, capacity) over an array in the store; the store is
  the list of the arrays allocated so far, an array's address being its index. The nil
  slice has no array. \<^verbatim>\<open>append\<close> writes in place while the capacity allows and moves to a
  new, larger array otherwise; how much larger is the runtime's choice, taken here as the
  parameter \<open>grow\<close> (old capacity, needed length), never less than what is needed.
\<close>

record slice =
  sl_array :: "nat option"
  sl_len :: nat
  sl_cap :: nat

definition nil_slice :: slice where
  "nil_slice = \<lparr>sl_array = None, sl_len = 0, sl_cap = 0\<rparr>"

definition elems :: "field list list \<Rightarrow> slice \<Rightarrow> field list" where
  "elems h sl = (case sl_array sl of None \<Rightarrow> [] | Some p \<Rightarrow> take (sl_len sl) (h ! p))"

definition wf_slice :: "field list list \<Rightarrow> slice \<Rightarrow> bool" where
  "wf_slice h sl =
     (case sl_array sl of
        None \<Rightarrow> sl_len sl = 0 \<and> sl_cap sl = 0
      | Some p \<Rightarrow> p < length h \<and> length (h ! p) = sl_cap sl \<and> sl_len sl \<le> sl_cap sl)"

definition go_make :: "field list list \<Rightarrow> nat \<Rightarrow> slice \<times> field list list" where
  "go_make h n =
     (\<lparr>sl_array = Some (length h), sl_len = n, sl_cap = n\<rparr>, h @ [replicate n zero_Field])"

definition go_copy :: "field list list \<Rightarrow> slice \<Rightarrow> slice \<Rightarrow> field list list" where
  "go_copy h dst src =
     (let n = min (sl_len dst) (sl_len src)
      in case sl_array dst of
           None \<Rightarrow> h
         | Some p \<Rightarrow> h[p := take n (elems h src) @ drop n (h ! p)])"

definition go_append ::
  "(nat \<Rightarrow> nat \<Rightarrow> nat) \<Rightarrow> field list list \<Rightarrow> slice \<Rightarrow> field \<Rightarrow> slice \<times> field list list" where
  "go_append grow h sl x =
     (case (sl_array sl, sl_len sl < sl_cap sl) of
        (Some p, True) \<Rightarrow> (sl\<lparr>sl_len := sl_len sl + 1\<rparr>, h[p := (h ! p)[sl_len sl := x]])
      | _ \<Rightarrow>
          (let n = sl_len sl + 1; c = max n (grow (sl_cap sl) n)
           in (\<lparr>sl_array = Some (length h), sl_len = n, sl_cap = c\<rparr>,
               h @ [elems h sl @ [x] @ replicate (c - n) zero_Field])))"

text \<open>
  Time: instants and durations in nanoseconds. \<^verbatim>\<open>time.Since(t)\<close> is \<^verbatim>\<open>time.Now().Sub(t)\<close>,
  which saturates at the ends of the 64-bit \<^verbatim>\<open>Duration\<close> range; the clock reading is the
  parameter \<open>now\<close>.
\<close>

definition Second :: int where
  "Second = 1000000000"

definition maxDuration :: int where
  "maxDuration = 2 ^ 63 - 1"

definition minDuration :: int where
  "minDuration = - (2 ^ 63)"

definition Since :: "int \<Rightarrow> int \<Rightarrow> int" where
  "Since now t =
     (let d = now - t
      in if d > maxDuration then maxDuration else if d < minDuration then minDuration else d)"

section \<open>jogger.go\<close>

record Span =
  logger :: logger
  start :: int
  fields_sl :: slice
  mu :: bool

definition RequestIDKey :: key where
  "RequestIDKey = ContextKey ''requestID''"

definition SpanKey :: key where
  "SpanKey = ContextKey ''currentSpan''"

definition LoggerKey :: key where
  "LoggerKey = ContextKey ''currentLogger''"

text \<open>
  \<^verbatim>\<open>init\<close> builds the process-wide logger on a console core over standard output (core 0
  here) that enables \<^verbatim>\<open>zapcore.InfoLevel\<close> and above.
\<close>

definition baseLogger :: logger where
  "baseLogger = \<lparr>core = 0, min_level = InfoLevel, with_fields = []\<rparr>"

definition WithRequestID :: "Context \<Rightarrow> string \<Rightarrow> Context" where
  "WithRequestID ctx requestID = WithValue ctx RequestIDKey (string_value requestID)"

definition FromContext :: "Context \<Rightarrow> logger" where
  "FromContext ctx =
     (let fields0 = [];
          fields1 = (case as_string (Value ctx RequestIDKey) of
                       (rid, True) \<Rightarrow> fields0 @ [zap_String ''requestID'' rid]
                     | (rid, False) \<Rightarrow> fields0);
          fields2 = (case as_string (Value ctx SpanKey) of
                       (span, True) \<Rightarrow> fields1 @ [zap_String ''span'' span]
                     | (span, False) \<Rightarrow> fields1)
      in case as_logger (Value ctx LoggerKey) of
           Some l \<Rightarrow> With l fields2
         | None \<Rightarrow> With baseLogger fields2)"

text \<open>
  \<^verbatim>\<open>StartSpan\<close> reads two things from its environment: the string of a new random UUID
  (\<open>spanID\<close>) and the clock (\<open>now\<close>). The span it returns has the zero values for
  \<^verbatim>\<open>fields\<close> (the nil slice) and \<^verbatim>\<open>mu\<close> (unlocked).
\<close>

definition StartSpan :: "Context \<Rightarrow> string \<Rightarrow> string \<Rightarrow> int \<Rightarrow> Span \<times> Context" where
  "StartSpan ctx name spanID now =
     (let requestID = fst (as_string (Value ctx RequestIDKey));
          fields0 = [zap_String ''span'' name, zap_String ''spanID'' spanID];
          fields1 = (if requestID \<noteq> '''' then fields0 @ [zap_String ''requestID'' requestID]
                     else fields0);
          l = With baseLogger fields1;
          ctx' = WithValue ctx SpanKey (string_value spanID)
      in (\<lparr>logger = l, start = now, fields_sl = nil_slice, mu = False\<rparr>, ctx'))"

text \<open>
  The mutex of a span. Within one thread of calls, \<^verbatim>\<open>Lock\<close> on a mutex that is held never
  returns, and \<^verbatim>\<open>Unlock\<close> on one that is not held is a fatal error; both are results of
  the model.
\<close>

datatype fault = Blocked | UnlockOfUnlockedMutex

definition Lock :: "Span \<Rightarrow> fault + Span" where
  "Lock s = (if mu s then Inl Blocked else Inr (s\<lparr>mu := True\<rparr>))"

definition Unlock :: "Span \<Rightarrow> fault + Span" where
  "Unlock s = (if mu s then Inr (s\<lparr>mu := False\<rparr>) else Inl UnlockOfUnlockedMutex)"

text \<open>What a call can change besides the span itself: the store of arrays and the sink.\<close>

record world =
  heap :: "field list list"
  sink :: "entry list"

definition SetTag ::
  "(nat \<Rightarrow> nat \<Rightarrow> nat) \<Rightarrow> string \<Rightarrow> tag_value \<Rightarrow> Span \<Rightarrow> world \<Rightarrow> fault + (Span \<times> world)" where
  "SetTag grow k v s w =
     (case Lock s of
        Inl f \<Rightarrow> Inl f
      | Inr s1 \<Rightarrow>
          (let (sl, h1) = go_append grow (heap w) (fields_sl s1) (zap_Any k v);
               s2 = s1\<lparr>fields_sl := sl\<rparr>
           in case Unlock s2 of
                Inl f \<Rightarrow> Inl f
              | Inr s3 \<Rightarrow> Inr (s3, w\<lparr>heap := h1\<rparr>)))"

definition Finish ::
  "(nat \<Rightarrow> nat \<Rightarrow> nat) \<Rightarrow> int \<Rightarrow> go_error option \<Rightarrow> Span \<Rightarrow> world \<Rightarrow> fault + (Span \<times> world)" where
  "Finish grow now err s w =
     (case Lock s of
        Inl f \<Rightarrow> Inl f
      | Inr s1 \<Rightarrow>
          (let (fieldsCopy0, h1) = go_make (heap w) (sl_len (fields_sl s1));
               h2 = go_copy h1 fieldsCopy0 (fields_sl s1)
           in case Unlock s1 of
                Inl f \<Rightarrow> Inl f
              | Inr s2 \<Rightarrow>
                  (let elapsed = Since now (start s2);
                       (fieldsCopy1, h3) =
                          go_append grow h2 fieldsCopy0 (zap_Duration ''duration'' elapsed)
                   in if (case err of None \<Rightarrow> False | Some e \<Rightarrow> e \<noteq> nil_error)
                      then
                        (let (fieldsCopy2, h4) =
                               go_append grow h3 fieldsCopy1 (zap_Error (the err))
                         in Inr (s2, \<lparr>heap = h4,
                                      sink = logger_Error (logger s2) ''span finished with error''
                                               (elems h4 fieldsCopy2) (sink w)\<rparr>))
                      else if elapsed > 1 * Second
                      then Inr (s2, \<lparr>heap = h3,
                                     sink = logger_Warn (logger s2) ''span finished slowly''
                                              (elems h3 fieldsCopy1) (sink w)\<rparr>)
                      else Inr (s2, \<lparr>heap = h3,
                                     sink = logger_Info (logger s2) ''span finished successfully''
                                              (elems h3 fieldsCopy1) (sink w)\<rparr>))))"

text \<open>
  The state in which the methods of a span are called: the mutex is free, the tag slice
  is a slice of the store, and the logger is one that enables the info level, as every
  logger \<^verbatim>\<open>StartSpan\<close> derives from \<open>baseLogger\<close> does.
\<close>

definition span_ok :: "Span \<Rightarrow> world \<Rightarrow> bool" where
  "span_ok s w = (\<not> mu s \<and> wf_slice (heap w) (fields_sl s) \<and> Enabled (logger s) InfoLevel)"

text \<open>The tags of a span: what its slice holds in the store.\<close>

definition tags :: "Span \<Rightarrow> world \<Rightarrow> field list" where
  "tags s w = elems (heap w) (fields_sl s)"

text \<open>
  A caller that tags a span with each pair of a list in turn, stopping at the first call
  that does not return.
\<close>

fun SetTags ::
  "(nat \<Rightarrow> nat \<Rightarrow> nat) \<Rightarrow> (string \<times> tag_value) list \<Rightarrow> Span \<Rightarrow> world \<Rightarrow> fault + (Span \<times> world)" where
  "SetTags grow [] s w = Inr (s, w)"
| "SetTags grow ((k, v) # kvs) s w =
     (case SetTag grow k v s w of
        Inl f \<Rightarrow> Inl f
      | Inr (s', w') \<Rightarrow> SetTags grow kvs s' w')"

section \<open>Notions used to state the properties\<close>

text \<open>A slice whose array, if it has one, lies at address \<open>N\<close> or above.\<close>

definition above :: "nat \<Rightarrow> slice \<Rightarrow> bool" where
  "above N sl = (case sl_array sl of None \<Rightarrow> True | Some p \<Rightarrow> N \<le> p)"

text \<open>
  The entry \<^verbatim>\<open>Finish\<close> is expected to write, read off the three branches of its
  classification: the fields, the level and the message.
\<close>

definition finish_fields :: "int \<Rightarrow> go_error option \<Rightarrow> Span \<Rightarrow> world \<Rightarrow> field list" where
  "finish_fields now err s w =
     tags s w @ zap_Duration ''duration'' (Since now (start s)) #
     (case err of Some (an_error m) \<Rightarrow> [zap_NamedError ''error'' m] | _ \<Rightarrow> [])"

definition finish_level :: "int \<Rightarrow> go_error option \<Rightarrow> Span \<Rightarrow> level" where
  "finish_level now err s =
     (case err of
        Some (an_error m) \<Rightarrow> ErrorLevel
      | _ \<Rightarrow> if Since now (start s) > 1 * Second then WarnLevel else InfoLevel)"

definition finish_message :: "int \<Rightarrow> go_error option \<Rightarrow> Span \<Rightarrow> string" where
  "finish_message now err s =
     (case err of
        Some (an_error m) \<Rightarrow> ''span finished with error''
      | _ \<Rightarrow> if Since now (start s) > 1 * Second then ''span finished slowly''
             else ''span finished successfully'')"

section \<open>Lemmas on contexts\<close>

lemma keys_distinct:
  "RequestIDKey \<noteq> SpanKey" "RequestIDKey \<noteq> LoggerKey" "SpanKey \<noteq> LoggerKey"
  "SpanKey \<noteq> RequestIDKey" "LoggerKey \<noteq> RequestIDKey" "LoggerKey \<noteq> SpanKey"
  by (simp_all add: RequestIDKey_def SpanKey_def LoggerKey_def)

lemma Value_WithValue:
  "Value (WithValue c k v) k' = (if k = k' then v else Value c k')"
  by (simp add: WithValue_def)

lemma Value_without:
  "Value (filter (\<lambda>b. fst b \<noteq> k') c) k = (if k = k' then nil_value else Value c k)"
  by (induction c) auto



section \<open>Lemmas on slices and the store\<close>

lemma wf_slice_length_elems:
  "wf_slice h sl \<Longrightarrow> length (elems h sl) = sl_len sl"
  by (auto simp add: wf_slice_def elems_def split: option.splits)

lemma elems_extend:
  "wf_slice h sl \<Longrightarrow> elems (h @ hs) sl = elems h sl"
  by (auto simp add: wf_slice_def elems_def nth_append split: option.splits)

lemma wf_slice_extend:
  "wf_slice h sl \<Longrightarrow> wf_slice (h @ hs) sl"
  by (auto simp add: wf_slice_def nth_append split: option.splits)

lemma go_append_in_place:
  assumes "sl_array sl = Some p" "sl_len sl < sl_cap sl"
  shows "go_append grow h sl x = (sl\<lparr>sl_len := sl_len sl + 1\<rparr>, h[p := (h ! p)[sl_len sl := x]])"
  using assms by (simp add: go_append_def)

lemma go_append_grows:
  assumes "sl_array sl = None \<or> \<not> sl_len sl < sl_cap sl"
  shows "go_append grow h sl x =
           (\<lparr>sl_array = Some (length h), sl_len = sl_len sl + 1,
             sl_cap = max (sl_len sl + 1) (grow (sl_cap sl) (sl_len sl + 1))\<rparr>,
            h @ [elems h sl @ [x] @
                 replicate (max (sl_len sl + 1) (grow (sl_cap sl) (sl_len sl + 1)) - (sl_len sl + 1))
                   zero_Field])"
  using assms by (auto simp add: go_append_def Let_def split: option.splits bool.splits)

lemma go_append_elems:
  assumes "wf_slice h sl" "go_append grow h sl x = (sl', h')"
  shows "elems h' sl' = elems h sl @ [x]"
proof (cases "sl_array sl = None \<or> \<not> sl_len sl < sl_cap sl")
  case True
  from go_append_grows [OF True, of grow h x] assms(2)
  show ?thesis
    using wf_slice_length_elems [OF assms(1)] by (auto simp add: elems_def)
next
  case False
  then obtain p where p: "sl_array sl = Some p" and lt: "sl_len sl < sl_cap sl" by auto
  from assms(1) p have wf: "p < length h" "length (h ! p) = sl_cap sl"
    by (simp_all add: wf_slice_def)
  from go_append_in_place [OF p lt, of grow h x] assms(2)
  have "sl' = sl\<lparr>sl_len := sl_len sl + 1\<rparr>" "h' = h[p := (h ! p)[sl_len sl := x]]" by simp_all
  then show ?thesis
    using p lt wf by (simp add: elems_def take_Suc_conv_app_nth)
qed

lemma go_append_wf:
  assumes "wf_slice h sl" "go_append grow h sl x = (sl', h')"
  shows "wf_slice h' sl'"
proof (cases "sl_array sl = None \<or> \<not> sl_len sl < sl_cap sl")
  case True
  from go_append_grows [OF True, of grow h x] assms(2)
  show ?thesis
    using wf_slice_length_elems [OF assms(1)] by (auto simp add: wf_slice_def)
next
  case False
  then obtain p where p: "sl_array sl = Some p" and lt: "sl_len sl < sl_cap sl" by auto
  from assms(1) p have wf: "p < length h" "length (h ! p) = sl_cap sl"
    by (simp_all add: wf_slice_def)
  from go_append_in_place [OF p lt, of grow h x] assms(2)
  have "sl' = sl\<lparr>sl_len := sl_len sl + 1\<rparr>" "h' = h[p := (h ! p)[sl_len sl := x]]" by simp_all
  then show ?thesis
    using p lt wf by (simp add: wf_slice_def)
qed

text \<open>
  An append made through a slice whose array lies at or above address \<open>N\<close> leaves the
  store below \<open>N\<close> as it was, and the slice it returns lies at or above \<open>N\<close> again.
\<close>

lemma go_append_above:
  assumes "above N sl" "N \<le> length h" "go_append grow h sl x = (sl', h')"
  shows "take N h' = take N h \<and> above N sl' \<and> N \<le> length h'"
proof (cases "sl_array sl = None \<or> \<not> sl_len sl < sl_cap sl")
  case True
  from go_append_grows [OF True, of grow h x] assms(2,3)
  show ?thesis by (auto simp add: above_def)
next
  case False
  then obtain p where p: "sl_array sl = Some p" and lt: "sl_len sl < sl_cap sl" by auto
  from go_append_in_place [OF p lt, of grow h x] assms(3)
  have "sl' = sl\<lparr>sl_len := sl_len sl + 1\<rparr>" "h' = h[p := (h ! p)[sl_len sl := x]]" by simp_all
  then show ?thesis
    using p assms(1,2) by (simp add: above_def)
qed

lemma snapshot:
  assumes "wf_slice h src"
  shows "go_copy (snd (go_make h (sl_len src))) (fst (go_make h (sl_len src))) src = h @ [elems h src]"
    and "wf_slice (h @ [elems h src]) (fst (go_make h (sl_len src)))"
    and "elems (h @ [elems h src]) (fst (go_make h (sl_len src))) = elems h src"
    and "above (length h) (fst (go_make h (sl_len src)))"
  using wf_slice_length_elems [OF assms] elems_extend [OF assms, of "[replicate (sl_len src) zero_Field]"]
  by (simp_all add: go_make_def go_copy_def wf_slice_def elems_def above_def)

section \<open>What the methods of a span compute\<close>

lemma unlock_after_lock:
  "\<not> mu s \<Longrightarrow> Lock s = Inr (s\<lparr>mu := True\<rparr>) \<and> Unlock (s\<lparr>mu := True\<rparr>) = Inr s"
  by (cases s) (simp add: Lock_def Unlock_def)

lemma Enabled_mono:
  "Enabled l InfoLevel \<Longrightarrow> Enabled l WarnLevel \<and> Enabled l ErrorLevel"
  by (simp add: Enabled_def)

lemma Finish_result:
  assumes ok: "span_ok s w"
  shows "\<exists>h'. Finish grow now err s w =
                 Inr (s, \<lparr>heap = h',
                          sink = sink w @ [\<lparr>e_logger = logger s, e_level = finish_level now err s,
                                            e_message = finish_message now err s,
                                            e_fields = finish_fields now err s w\<rparr>]\<rparr>) \<and>
              take (length (heap w)) h' = heap w \<and> length (heap w) \<le> length h'"
proof -
  let ?h = "heap w" and ?src = "fields_sl s"
  let ?N = "length ?h"
  let ?cp = "fst (go_make ?h (sl_len ?src))"
  let ?h2 = "?h @ [elems ?h ?src]"
  let ?d = "zap_Duration ''duration'' (Since now (start s))"
  from ok have nmu: "\<not> mu s" and wf: "wf_slice ?h ?src" and en: "Enabled (logger s) InfoLevel"
    by (simp_all add: span_ok_def)
  note lk = unlock_after_lock [OF nmu]
  note sn = snapshot [OF wf]
  obtain cp1 h3 where a1: "go_append grow ?h2 ?cp ?d = (cp1, h3)"
    by (cases "go_append grow ?h2 ?cp ?d")
  have e1: "elems h3 cp1 = elems ?h ?src @ [?d]"
    using go_append_elems [OF sn(2) a1] sn(3) by simp
  have w1: "wf_slice h3 cp1" by (rule go_append_wf [OF sn(2) a1])
  have f1: "take ?N h3 = ?h" "above ?N cp1" "?N \<le> length h3"
    using go_append_above [OF sn(4) _ a1] by simp_all
  have mk: "go_make ?h (sl_len ?src) = (?cp, snd (go_make ?h (sl_len ?src)))" by simp
  show ?thesis
  proof (cases "case err of None \<Rightarrow> False | Some e \<Rightarrow> e \<noteq> nil_error")
    case False
    then have ne: "\<not> (\<exists>m. err = Some (an_error m))" by (auto split: option.splits)
    then have fl: "finish_fields now err s w = elems ?h ?src @ [?d]"
      "finish_level now err s = (if Since now (start s) > 1 * Second then WarnLevel else InfoLevel)"
      "finish_message now err s = (if Since now (start s) > 1 * Second then ''span finished slowly''
             else ''span finished successfully'')"
      by (auto simp add: finish_fields_def finish_level_def finish_message_def tags_def
          split: option.splits go_error.splits)
    have "Finish grow now err s w =
            Inr (s, \<lparr>heap = h3,
                     sink = sink w @ [\<lparr>e_logger = logger s, e_level = finish_level now err s,
                                       e_message = finish_message now err s,
                                       e_fields = finish_fields now err s w\<rparr>]\<rparr>)"
      unfolding Finish_def
      using False lk sn(1) a1 e1 fl en Enabled_mono [OF en]
      by (simp add: Let_def split_beta logger_Warn_def logger_Info_def write_entry_def)
    with f1 show ?thesis by blast
  next
    case True
    then obtain m where m: "err = Some (an_error m)"
      by (cases err) (auto intro: go_error.exhaust)
    let ?e = "zap_NamedError ''error'' m"
    obtain cp2 h4 where a2: "go_append grow h3 cp1 ?e = (cp2, h4)"
      by (cases "go_append grow h3 cp1 ?e")
    have e2: "elems h4 cp2 = elems ?h ?src @ [?d, ?e]"
      using go_append_elems [OF w1 a2] e1 by simp
    have f2: "take ?N h4 = ?h" "?N \<le> length h4"
      using go_append_above [OF f1(2,3) a2] f1(1) by simp_all
    have fl: "finish_fields now err s w = elems ?h ?src @ [?d, ?e]"
      "finish_level now err s = ErrorLevel"
      "finish_message now err s = ''span finished with error''"
      using m by (simp_all add: finish_fields_def finish_level_def finish_message_def tags_def)
    have "Finish grow now err s w =
            Inr (s, \<lparr>heap = h4,
                     sink = sink w @ [\<lparr>e_logger = logger s, e_level = finish_level now err s,
                                       e_message = finish_message now err s,
                                       e_fields = finish_fields now err s w\<rparr>]\<rparr>)"
      unfolding Finish_def
      using m lk sn(1) a1 a2 e2 fl Enabled_mono [OF en]
      by (simp add: Let_def split_beta logger_Error_def write_entry_def zap_Error_def)
    with f2 show ?thesis by blast
  qed
qed

lemma StartSpan_span_ok:
  "span_ok (fst (StartSpan ctx name spanID now)) w \<and> tags (fst (StartSpan ctx name spanID now)) w = []"
  by (simp add: StartSpan_def Let_def span_ok_def tags_def wf_slice_def nil_slice_def elems_def
      Enabled_def With_def baseLogger_def)

lemma SetTag_result:
  assumes ok: "span_ok s w"
  shows "\<exists>s' w'. SetTag grow k v s w = Inr (s', w') \<and> span_ok s' w' \<and>
           tags s' w' = tags s w @ [zap_Any k v] \<and>
           logger s' = logger s \<and> start s' = start s \<and> sink w' = sink w"
proof -
  from ok have nmu: "\<not> mu s" and wf: "wf_slice (heap w) (fields_sl s)"
    and en: "Enabled (logger s) InfoLevel"
    by (simp_all add: span_ok_def)
  obtain sl h1 where a: "go_append grow (heap w) (fields_sl s) (zap_Any k v) = (sl, h1)"
    by (cases "go_append grow (heap w) (fields_sl s) (zap_Any k v)")
  have "SetTag grow k v s w = Inr (s\<lparr>fields_sl := sl\<rparr>, w\<lparr>heap := h1\<rparr>)"
    using nmu a by (cases s) (simp add: SetTag_def Lock_def Unlock_def)
  moreover have "span_ok (s\<lparr>fields_sl := sl\<rparr>) (w\<lparr>heap := h1\<rparr>)"
    using nmu en go_append_wf [OF wf a] by (simp add: span_ok_def)
  moreover have "tags (s\<lparr>fields_sl := sl\<rparr>) (w\<lparr>heap := h1\<rparr>) = tags s w @ [zap_Any k v]"
    using go_append_elems [OF wf a] by (simp add: tags_def)
  ultimately show ?thesis by simp
qed

lemma SetTags_result:
  assumes "span_ok s w"
  shows "\<exists>s' w'. SetTags grow kvs s w = Inr (s', w') \<and> span_ok s' w' \<and>
           tags s' w' = tags s w @ map (\<lambda>(k, v). zap_Any k v) kvs \<and>
           logger s' = logger s \<and> start s' = start s \<and> sink w' = sink w"
  using assms
proof (induction kvs arbitrary: s w)
  case Nil
  then show ?case by simp
next
  case (Cons kv kvs)
  obtain k v where kv: "kv = (k, v)" by (cases kv)
  from SetTag_result [OF Cons.prems, of grow k v]
  obtain s1 w1 where 1: "SetTag grow k v s w = Inr (s1, w1)" "span_ok s1 w1"
    "tags s1 w1 = tags s w @ [zap_Any k v]" "logger s1 = logger s" "start s1 = start s"
    "sink w1 = sink w" by blast
  from Cons.IH [OF 1(2)]
  obtain s2 w2 where 2: "SetTags grow kvs s1 w1 = Inr (s2, w2)" "span_ok s2 w2"
    "tags s2 w2 = tags s1 w1 @ map (\<lambda>(k, v). zap_Any k v) kvs" "logger s2 = logger s1"
    "start s2 = start s1" "sink w2 = sink w1" by blast
  from 1 2 kv show ?case by simp
qed

lemma Finish_span_ok:
  assumes "span_ok s w" "Finish grow now err s w = Inr (s', w')"
  shows "span_ok s' w' \<and> tags s' w' = tags s w"
proof -
  from Finish_result [OF assms(1), of grow now err] assms(2)
  obtain h' where h: "s' = s" "heap w' = h'" "take (length (heap w)) h' = heap w"
    "length (heap w) \<le> length h'" by auto
  from h(3) have "h' = heap w @ drop (length (heap w)) h'"
    by (metis append_take_drop_id)
  then obtain hs where hs: "h' = heap w @ hs" ..
  from assms(1) have "wf_slice (heap w) (fields_sl s)" by (simp add: span_ok_def)
  from wf_slice_extend [OF this, of hs] elems_extend [OF this, of hs] assms(1) h hs
  show ?thesis by (simp add: span_ok_def tags_def)
qed

section \<open>Properties of the context operations\<close>

text \<open>
  C5. For all carriers \<open>c\<close> and ids \<open>rid\<close>, looking up the requestID key on the carrier
  returned by \<^verbatim>\<open>WithRequestID(c, rid)\<close> yields \<open>rid\<close>, and \<open>c\<close> itself is unaffected. Carriers
  are immutable values; the derived carrier is one new binding whose parent is \<open>c\<close> as it
  was, so every lookup on \<open>c\<close> is what it was before the derivation.
\<close>

theorem WithRequestID_lookup:
  "Value (WithRequestID c rid) RequestIDKey = string_value rid \<and>
   parent_of (WithRequestID c rid) = Some c"
  by (simp add: WithRequestID_def WithValue_def)

text \<open>
  C6. Deriving a carrier never removes a previously bound key: for every key \<open>k1\<close> other
  than the derived key, lookup of \<open>k1\<close> on the derived carrier equals lookup of \<open>k1\<close> on the
  original, both for \<^verbatim>\<open>WithRequestID\<close> (derived key requestID) and for the carrier
  \<^verbatim>\<open>StartSpan\<close> returns (derived key currentSpan).
\<close>

theorem derive_keeps_other_keys:
  "(k1 \<noteq> RequestIDKey \<longrightarrow> Value (WithRequestID c rid) k1 = Value c k1) \<and>
   (k1 \<noteq> SpanKey \<longrightarrow> Value (snd (StartSpan c name spanID now)) k1 = Value c k1)"
  by (auto simp add: WithRequestID_def StartSpan_def Let_def Value_WithValue)

theorem derive_keeps_other_keys_witness:
  "SpanKey \<noteq> RequestIDKey \<and> RequestIDKey \<noteq> SpanKey \<and>
   Value (WithRequestID [(SpanKey, string_value ''s1'')] ''r1'') SpanKey = string_value ''s1'' \<and>
   Value (snd (StartSpan [(RequestIDKey, string_value ''r1'')] ''op'' ''s2'' 0)) RequestIDKey =
     string_value ''r1''"
  using derive_keeps_other_keys [of SpanKey "[(SpanKey, string_value ''s1'')]" "''r1''"]
    derive_keeps_other_keys [of RequestIDKey "[(RequestIDKey, string_value ''r1'')]" _ "''op''" "''s2''" 0]
  by (simp add: RequestIDKey_def SpanKey_def)

text \<open>
  C3. A carrier in which requestID is bound to the empty string. The claim that every
  operation resolving it treats the binding as present fails for \<^verbatim>\<open>StartSpan\<close>, which
  tests \<^verbatim>\<open>requestID != ""\<close>: on the carrier \<^verbatim>\<open>WithRequestID(Background, "")\<close> the span's
  logger carries the fields span and spanID and no requestID field.
\<close>

theorem empty_requestID_StartSpan_counterexample:
  "Value (WithRequestID Background '''') RequestIDKey = string_value '''' \<and>
   with_fields (logger (fst (StartSpan (WithRequestID Background '''') ''op'' ''id-1'' 0))) =
     [zap_String ''span'' ''op'', zap_String ''spanID'' ''id-1'']"
  by (simp add: StartSpan_def WithRequestID_def WithValue_def Background_def as_string_def
      With_def baseLogger_def Let_def)

text \<open>
  C3, as the code has it. For every carrier in which requestID is bound to the empty
  string, \<^verbatim>\<open>FromContext\<close> treats the binding as present: the logger it returns is its base
  logger (the override if one is bound, the default otherwise) with a requestID field
  carrying the empty value, followed by the span field if currentSpan is bound.
  \<^verbatim>\<open>StartSpan\<close> treats the empty requestID like an absent one: the bound logger of the span
  carries exactly the fields span and spanID.
\<close>

theorem empty_requestID_resolution:
  assumes "Value ctx RequestIDKey = string_value ''''"
  shows "with_fields (FromContext ctx) =
           with_fields (case as_logger (Value ctx LoggerKey) of Some l \<Rightarrow> l | None \<Rightarrow> baseLogger) @
           zap_String ''requestID'' '''' #
           (case as_string (Value ctx SpanKey) of (span, True) \<Rightarrow> [zap_String ''span'' span]
                                               | (span, False) \<Rightarrow> []) \<and>
         with_fields (logger (fst (StartSpan ctx name spanID now))) =
           [zap_String ''span'' name, zap_String ''spanID'' spanID]"
  using assms
  by (simp add: FromContext_def StartSpan_def as_string_def With_def baseLogger_def Let_def
      split: option.splits prod.splits bool.splits ctx_value.splits)

theorem empty_requestID_resolution_witness:
  "Value [(RequestIDKey, string_value '''')] RequestIDKey = string_value '''' \<and>
   with_fields (FromContext [(RequestIDKey, string_value '''')]) = [zap_String ''requestID'' ''''] \<and>
   with_fields (logger (fst (StartSpan [(RequestIDKey, string_value '''')] ''op'' ''id-2'' 3))) =
     [zap_String ''span'' ''op'', zap_String ''spanID'' ''id-2'']"
proof -
  have h: "Value [(RequestIDKey, string_value '''')] RequestIDKey = string_value ''''" by simp
  show ?thesis
    using h empty_requestID_resolution [OF h, of "''op''" "''id-2''" 3]
    by (simp add: as_logger_def as_string_def baseLogger_def RequestIDKey_def SpanKey_def
        LoggerKey_def)
qed

text \<open>
  C4. For every carrier with a currentLogger override \<open>l\<close> bound, \<^verbatim>\<open>StartSpan\<close> builds the
  span's bound logger from the process-wide default and ignores the override (the span is
  the one it returns on the same carrier without the override), whereas \<^verbatim>\<open>FromContext\<close>
  uses \<open>l\<close> as the base: it returns \<open>l\<close> with the very fields it would put on the default
  logger if the override were not bound.
\<close>

theorem logger_base_asymmetry:
  assumes "Value ctx LoggerKey = logger_value l"
  shows "\<exists>fs gs.
           logger (fst (StartSpan ctx name spanID now)) = With baseLogger fs \<and>
           fst (StartSpan (filter (\<lambda>b. fst b \<noteq> LoggerKey) ctx) name spanID now) =
             fst (StartSpan ctx name spanID now) \<and>
           FromContext ctx = With l gs \<and>
           FromContext (filter (\<lambda>b. fst b \<noteq> LoggerKey) ctx) = With baseLogger gs"
  using assms
  by (simp add: FromContext_def StartSpan_def Let_def Value_without keys_distinct as_logger_def
      split: prod.splits bool.splits) blast

theorem logger_base_asymmetry_witness:
  "Value [(LoggerKey, logger_value \<lparr>core = 1, min_level = DebugLevel, with_fields = []\<rparr>),
          (RequestIDKey, string_value ''r1'')] LoggerKey =
     logger_value \<lparr>core = 1, min_level = DebugLevel, with_fields = []\<rparr> \<and>
   core (logger (fst (StartSpan
     [(LoggerKey, logger_value \<lparr>core = 1, min_level = DebugLevel, with_fields = []\<rparr>),
      (RequestIDKey, string_value ''r1'')] ''op'' ''id-3'' 0))) = core baseLogger \<and>
   core (FromContext
     [(LoggerKey, logger_value \<lparr>core = 1, min_level = DebugLevel, with_fields = []\<rparr>),
      (RequestIDKey, string_value ''r1'')]) = 1"
proof -
  let ?l = "\<lparr>core = 1, min_level = DebugLevel, with_fields = []\<rparr>"
  let ?c = "[(LoggerKey, logger_value ?l), (RequestIDKey, string_value ''r1'')]"
  have h: "Value ?c LoggerKey = logger_value ?l" by simp
  from logger_base_asymmetry [OF h, of "''op''" "''id-3''" 0]
  obtain fs gs where "logger (fst (StartSpan ?c ''op'' ''id-3'' 0)) = With baseLogger fs"
    "FromContext ?c = With ?l gs" by blast
  with h show ?thesis by (simp add: With_def)
qed



section \<open>Properties of finishing a span\<close>

text \<open>
  C1. For every span, \<^verbatim>\<open>Finish\<close> returns and writes one entry whose level follows the
  first match of: a non-nil referenced error, whatever the elapsed time, gives the error
  level; otherwise (nil reference or reference to a nil error) an elapsed time strictly
  above one second gives the warn level; otherwise, at or below one second, the info level.
\<close>

theorem Finish_classification:
  assumes "span_ok s w"
  shows "\<exists>s' w' e. Finish grow now err s w = Inr (s', w') \<and> sink w' = sink w @ [e] \<and>
           ((\<exists>m. err = Some (an_error m)) \<longrightarrow>
              e_level e = ErrorLevel \<and> e_message e = ''span finished with error'') \<and>
           ((err = None \<or> err = Some nil_error) \<and> Since now (start s) > 1 * Second \<longrightarrow>
              e_level e = WarnLevel \<and> e_message e = ''span finished slowly'') \<and>
           ((err = None \<or> err = Some nil_error) \<and> Since now (start s) \<le> 1 * Second \<longrightarrow>
              e_level e = InfoLevel \<and> e_message e = ''span finished successfully'')"
proof -
  from Finish_result [OF assms, of grow now err]
  obtain h' where "Finish grow now err s w =
      Inr (s, \<lparr>heap = h',
               sink = sink w @ [\<lparr>e_logger = logger s, e_level = finish_level now err s,
                                 e_message = finish_message now err s,
                                 e_fields = finish_fields now err s w\<rparr>]\<rparr>)" by blast
  then show ?thesis
    by (auto simp add: finish_level_def finish_message_def)
qed

theorem Finish_classification_witness:
  "span_ok (fst (StartSpan Background ''op'' ''id-1'' 0)) \<lparr>heap = [], sink = []\<rparr> \<and>
   (\<exists>s' w' e. Finish (\<lambda>c n. 2 * n) 1000000001 (Some (an_error ''boom''))
                 (fst (StartSpan Background ''op'' ''id-1'' 0)) \<lparr>heap = [], sink = []\<rparr> = Inr (s', w') \<and>
               sink w' = [e] \<and> e_level e = ErrorLevel) \<and>
   (\<exists>s' w' e. Finish (\<lambda>c n. 2 * n) 1000000001 (Some nil_error)
                 (fst (StartSpan Background ''op'' ''id-1'' 0)) \<lparr>heap = [], sink = []\<rparr> = Inr (s', w') \<and>
               sink w' = [e] \<and> e_level e = WarnLevel) \<and>
   (\<exists>s' w' e. Finish (\<lambda>c n. 2 * n) 1000000000 None
                 (fst (StartSpan Background ''op'' ''id-1'' 0)) \<lparr>heap = [], sink = []\<rparr> = Inr (s', w') \<and>
               sink w' = [e] \<and> e_level e = InfoLevel)"
proof -
  let ?s = "fst (StartSpan Background ''op'' ''id-1'' 0)"
  let ?w = "\<lparr>heap = [], sink = []\<rparr>"
  have h: "span_ok ?s ?w"
    by (simp add: StartSpan_def Let_def span_ok_def wf_slice_def nil_slice_def Enabled_def
        With_def baseLogger_def)
  have st: "start ?s = 0" by (simp add: StartSpan_def Let_def)
  have t: "Since 1000000001 0 > 1 * Second" "Since 1000000000 0 \<le> 1 * Second"
    by (simp_all add: Since_def Second_def maxDuration_def minDuration_def)
  from Finish_classification [OF h, of "\<lambda>c n. 2 * n" 1000000001 "Some (an_error ''boom'')"]
  have 1: "\<exists>s' w' e. Finish (\<lambda>c n. 2 * n) 1000000001 (Some (an_error ''boom'')) ?s ?w = Inr (s', w') \<and>
               sink w' = [e] \<and> e_level e = ErrorLevel" by auto
  from Finish_classification [OF h, of "\<lambda>c n. 2 * n" 1000000001 "Some nil_error"] t st
  have 2: "\<exists>s' w' e. Finish (\<lambda>c n. 2 * n) 1000000001 (Some nil_error) ?s ?w = Inr (s', w') \<and>
               sink w' = [e] \<and> e_level e = WarnLevel" by auto
  from Finish_classification [OF h, of "\<lambda>c n. 2 * n" 1000000000 None] t st
  have 3: "\<exists>s' w' e. Finish (\<lambda>c n. 2 * n) 1000000000 None ?s ?w = Inr (s', w') \<and>
               sink w' = [e] \<and> e_level e = InfoLevel" by auto
  from h 1 2 3 show ?thesis by blast
qed

text \<open>
  C2. For every span, each call to \<^verbatim>\<open>Finish\<close> writes exactly one entry, through the
  span's bound logger; its fields are the snapshot of the tag sequence with the duration
  field (the time elapsed since the start of the span) appended, in every entry, the
  error-level one included, where the error field follows the duration.
\<close>

theorem Finish_emits_one_entry:
  assumes "span_ok s w"
  shows "\<exists>s' w' e. Finish grow now err s w = Inr (s', w') \<and> sink w' = sink w @ [e] \<and>
           e_logger e = logger s \<and>
           e_fields e =
             tags s w @ [zap_Duration ''duration'' (Since now (start s))] @
             (case err of Some (an_error m) \<Rightarrow> [zap_NamedError ''error'' m] | _ \<Rightarrow> [])"
proof -
  from Finish_result [OF assms, of grow now err]
  obtain h' where "Finish grow now err s w =
      Inr (s, \<lparr>heap = h',
               sink = sink w @ [\<lparr>e_logger = logger s, e_level = finish_level now err s,
                                 e_message = finish_message now err s,
                                 e_fields = finish_fields now err s w\<rparr>]\<rparr>)" by blast
  then show ?thesis
    by (simp add: finish_fields_def)
qed

theorem Finish_emits_one_entry_witness:
  "span_ok (fst (StartSpan Background ''op'' ''id-1'' 0)) \<lparr>heap = [], sink = []\<rparr> \<and>
   (\<exists>s' w' e. Finish (\<lambda>c n. 2 * n) 7 (Some (an_error ''boom''))
                 (fst (StartSpan Background ''op'' ''id-1'' 0)) \<lparr>heap = [], sink = []\<rparr> = Inr (s', w') \<and>
               sink w' = [e] \<and>
               e_logger e = With baseLogger [zap_String ''span'' ''op'', zap_String ''spanID'' ''id-1''] \<and>
               e_fields e = [zap_Duration ''duration'' 7, zap_NamedError ''error'' ''boom''])"
proof -
  let ?s = "fst (StartSpan Background ''op'' ''id-1'' 0)"
  let ?w = "\<lparr>heap = [], sink = []\<rparr>"
  have h: "span_ok ?s ?w"
    by (simp add: StartSpan_def Let_def span_ok_def wf_slice_def nil_slice_def Enabled_def
        With_def baseLogger_def)
  have st: "start ?s = 0" "tags ?s ?w = []"
    "logger ?s = With baseLogger [zap_String ''span'' ''op'', zap_String ''spanID'' ''id-1'']"
    by (simp_all add: StartSpan_def Let_def tags_def elems_def nil_slice_def Background_def
        as_string_def)
  have t: "Since 7 0 = 7"
    by (simp add: Since_def maxDuration_def minDuration_def)
  from Finish_emits_one_entry [OF h, of "\<lambda>c n. 2 * n" 7 "Some (an_error ''boom'')"] st t h
  show ?thesis by simp
qed

text \<open>
  C9. For every span, calling \<^verbatim>\<open>Finish\<close> twice writes two entries (nothing detects or
  prevents the second call), each built from the tags accumulated at the time of that call:
  the first holds the tags set before it, the second holds those and, after them, the tags
  set between the two calls.
\<close>

theorem Finish_twice:
  assumes "span_ok s w"
  shows "\<exists>s1 w1 s2 w2 s3 w3 e1 e2.
           Finish grow now1 err1 s w = Inr (s1, w1) \<and>
           SetTags grow kvs s1 w1 = Inr (s2, w2) \<and>
           Finish grow now2 err2 s2 w2 = Inr (s3, w3) \<and>
           sink w1 = sink w @ [e1] \<and> sink w3 = sink w @ [e1, e2] \<and>
           e_fields e1 =
             tags s w @ [zap_Duration ''duration'' (Since now1 (start s))] @
             (case err1 of Some (an_error m) \<Rightarrow> [zap_NamedError ''error'' m] | _ \<Rightarrow> []) \<and>
           e_fields e2 =
             tags s w @ map (\<lambda>(k, v). zap_Any k v) kvs @
             [zap_Duration ''duration'' (Since now2 (start s))] @
             (case err2 of Some (an_error m) \<Rightarrow> [zap_NamedError ''error'' m] | _ \<Rightarrow> [])"
proof -
  from Finish_result [OF assms, of grow now1 err1]
  obtain h1 where 1: "Finish grow now1 err1 s w =
      Inr (s, \<lparr>heap = h1,
               sink = sink w @ [\<lparr>e_logger = logger s, e_level = finish_level now1 err1 s,
                                 e_message = finish_message now1 err1 s,
                                 e_fields = finish_fields now1 err1 s w\<rparr>]\<rparr>)" by blast
  let ?w1 = "\<lparr>heap = h1,
               sink = sink w @ [\<lparr>e_logger = logger s, e_level = finish_level now1 err1 s,
                                 e_message = finish_message now1 err1 s,
                                 e_fields = finish_fields now1 err1 s w\<rparr>]\<rparr>"
  from Finish_span_ok [OF assms 1] have ok1: "span_ok s ?w1" and t1: "tags s ?w1 = tags s w"
    by simp_all
  from SetTags_result [OF ok1, of grow kvs]
  obtain s2 w2 where 2: "SetTags grow kvs s ?w1 = Inr (s2, w2)" "span_ok s2 w2"
    "tags s2 w2 = tags s ?w1 @ map (\<lambda>(k, v). zap_Any k v) kvs"
    "start s2 = start s" "sink w2 = sink ?w1" by blast
  from Finish_result [OF 2(2), of grow now2 err2]
  obtain h3 where 3: "Finish grow now2 err2 s2 w2 =
      Inr (s2, \<lparr>heap = h3,
               sink = sink w2 @ [\<lparr>e_logger = logger s2, e_level = finish_level now2 err2 s2,
                                 e_message = finish_message now2 err2 s2,
                                 e_fields = finish_fields now2 err2 s2 w2\<rparr>]\<rparr>)" by blast
  from 1 2 3 t1 show ?thesis
    by (simp add: finish_fields_def)
qed

theorem Finish_twice_witness:
  "span_ok (fst (StartSpan Background ''op'' ''id-1'' 0)) \<lparr>heap = [], sink = []\<rparr> \<and>
   (\<exists>s1 w1 s2 w2 s3 w3 e1 e2.
      Finish (\<lambda>c n. 2 * n) 5 None (fst (StartSpan Background ''op'' ''id-1'' 0))
        \<lparr>heap = [], sink = []\<rparr> = Inr (s1, w1) \<and>
      SetTags (\<lambda>c n. 2 * n) [(''k'', StringValue ''v'')] s1 w1 = Inr (s2, w2) \<and>
      Finish (\<lambda>c n. 2 * n) 9 None s2 w2 = Inr (s3, w3) \<and>
      sink w1 = [e1] \<and> sink w3 = [e1, e2] \<and>
      e_fields e1 = [zap_Duration ''duration'' 5] \<and>
      e_fields e2 = [zap_Any ''k'' (StringValue ''v''), zap_Duration ''duration'' 9])"
proof -
  let ?s = "fst (StartSpan Background ''op'' ''id-1'' 0)"
  let ?w = "\<lparr>heap = [], sink = []\<rparr>"
  have h: "span_ok ?s ?w"
    by (simp add: StartSpan_def Let_def span_ok_def wf_slice_def nil_slice_def Enabled_def
        With_def baseLogger_def)
  have st: "start ?s = 0" "tags ?s ?w = []"
    by (simp_all add: StartSpan_def Let_def tags_def elems_def nil_slice_def)
  have t: "Since 5 0 = 5" "Since 9 0 = 9"
    by (simp_all add: Since_def maxDuration_def minDuration_def)
  from Finish_twice [OF h, of "\<lambda>c n. 2 * n" 5 None "[(''k'', StringValue ''v'')]" 9 None] st t h
  show ?thesis by simp
qed

text \<open>
  C10. For every span, \<^verbatim>\<open>Finish\<close> leaves the stored state of the span unchanged: the span
  it leaves behind is the span it was called on (logger, start time, slice header and a
  free mutex), every array that was in the store before the call, the one under the
  span's tags among them, holds what it held, and so the tag sequence is the same. The
  duration and error fields go to arrays allocated during the call.
\<close>

theorem Finish_frame:
  assumes "span_ok s w"
  shows "\<exists>w'. Finish grow now err s w = Inr (s, w') \<and>
           take (length (heap w)) (heap w') = heap w \<and>
           tags s w' = tags s w"
proof -
  from Finish_result [OF assms, of grow now err]
  obtain h' where 1: "Finish grow now err s w =
      Inr (s, \<lparr>heap = h',
               sink = sink w @ [\<lparr>e_logger = logger s, e_level = finish_level now err s,
                                 e_message = finish_message now err s,
                                 e_fields = finish_fields now err s w\<rparr>]\<rparr>)"
    and 2: "take (length (heap w)) h' = heap w" by blast
  from Finish_span_ok [OF assms 1] 1 2 show ?thesis by simp
qed

theorem Finish_frame_witness:
  "span_ok \<lparr>logger = With baseLogger [zap_String ''span'' ''op'', zap_String ''spanID'' ''id-1''],
            start = 0, fields_sl = \<lparr>sl_array = Some 0, sl_len = 1, sl_cap = 2\<rparr>, mu = False\<rparr>
     \<lparr>heap = [[zap_Any ''k'' (IntValue 1), zero_Field]], sink = []\<rparr> \<and>
   (\<exists>w'. Finish (\<lambda>c n. 2 * n) 5 (Some (an_error ''boom''))
            \<lparr>logger = With baseLogger [zap_String ''span'' ''op'', zap_String ''spanID'' ''id-1''],
             start = 0, fields_sl = \<lparr>sl_array = Some 0, sl_len = 1, sl_cap = 2\<rparr>, mu = False\<rparr>
            \<lparr>heap = [[zap_Any ''k'' (IntValue 1), zero_Field]], sink = []\<rparr> =
          Inr (\<lparr>logger = With baseLogger [zap_String ''span'' ''op'', zap_String ''spanID'' ''id-1''],
                start = 0, fields_sl = \<lparr>sl_array = Some 0, sl_len = 1, sl_cap = 2\<rparr>,
                mu = False\<rparr>, w') \<and>
          take 1 (heap w') = [[zap_Any ''k'' (IntValue 1), zero_Field]])"
proof -
  let ?s = "\<lparr>logger = With baseLogger [zap_String ''span'' ''op'', zap_String ''spanID'' ''id-1''],
             start = 0, fields_sl = \<lparr>sl_array = Some 0, sl_len = 1, sl_cap = 2\<rparr>, mu = False\<rparr>"
  let ?w = "\<lparr>heap = [[zap_Any ''k'' (IntValue 1), zero_Field]], sink = []\<rparr>"
  have h: "span_ok ?s ?w"
    by (simp add: span_ok_def wf_slice_def Enabled_def baseLogger_def With_def)
  from Finish_frame [OF h, of "\<lambda>c n. 2 * n" 5 "Some (an_error ''boom'')"] h
  show ?thesis by auto
qed

end
